theory Spec2Isabelle
  imports Main
begin

section \<open>Strings and character classes\<close>

text \<open>
  A Python \<open>str\<close> is modelled as a \<^typ>\<open>string\<close>, each \<^typ>\<open>char\<close> read as the code point
  of the same number (U+0000 to U+00FF). The two character classes that the source takes
  from the Python runtime are written out for that range: \<open>str.strip()\<close> and the pattern
  \<open>\s\<close> share the runtime's whitespace test, and \<open>\w\<close> (hence \<open>\b\<close>) is the runtime's
  alphanumeric test or an underscore.
\<close>

abbreviation NL :: char where
  "NL \<equiv> CHR 0x0A"

definition is_space :: "char \<Rightarrow> bool" where
  "is_space c = (let n = (of_char c :: nat) in
     (9 \<le> n \<and> n \<le> 13) \<or> (28 \<le> n \<and> n \<le> 32) \<or> n = 133 \<or> n = 160)"

definition is_word :: "char \<Rightarrow> bool" where
  "is_word c = (let n = (of_char c :: nat) in
     (48 \<le> n \<and> n \<le> 57) \<or> (65 \<le> n \<and> n \<le> 90) \<or> n = 95 \<or> (97 \<le> n \<and> n \<le> 122)
     \<or> n = 170 \<or> n = 178 \<or> n = 179 \<or> n = 181 \<or> n = 185 \<or> n = 186
     \<or> (188 \<le> n \<and> n \<le> 190) \<or> (192 \<le> n \<and> n \<le> 214) \<or> (216 \<le> n \<and> n \<le> 246)
     \<or> (248 \<le> n \<and> n \<le> 255))"

text \<open>The character class \<open>[A-F]\<close>.\<close>

definition is_AF :: "char \<Rightarrow> bool" where
  "is_AF c = (let n = (of_char c :: nat) in 65 \<le> n \<and> n \<le> 70)"

text \<open>\<open>s.strip()\<close>: whitespace is removed from both ends.\<close>

definition strip :: "string \<Rightarrow> string" where
  "strip s = rev (dropWhile is_space (rev (dropWhile is_space s)))"

text \<open>\<open>s.startswith(p)\<close>.\<close>

definition startswith :: "string \<Rightarrow> string \<Rightarrow> bool" where
  "startswith s p = (take (length p) s = p)"

text \<open>\<open>sub in s\<close>: \<open>sub\<close> occurs in \<open>s\<close> as a contiguous run.\<close>

fun contains :: "string \<Rightarrow> string \<Rightarrow> bool" where
  "contains [] sub = (sub = [])"
| "contains (c # cs) sub = (startswith (c # cs) sub \<or> contains cs sub)"

text \<open>\<open>sep.join(xs)\<close>.\<close>

fun join :: "string \<Rightarrow> string list \<Rightarrow> string" where
  "join sep [] = []"
| "join sep [x] = x"
| "join sep (x # y # ys) = x @ sep @ join sep (y # ys)"

section \<open>The patterns of \<open>parse_question\<close>\<close>

text \<open>
  Each pattern is matched at the start of the stripped line (\<open>re.match\<close>). A pattern is
  written as the sequence of its pieces, each piece taking the matcher for what follows
  it, so that a greedy piece gives characters back when the rest fails, as the regular
  expression engine does. The result is the text of the capture group.
\<close>

text \<open>
  \<open>star P k\<close> is \<open>P*\<close> followed by \<open>k\<close>, for a character class \<open>P\<close>: the longest run
  first, then shorter ones. \<open>plus P k\<close> is \<open>P+\<close> followed by \<open>k\<close>.
\<close>

fun star :: "(char \<Rightarrow> bool) \<Rightarrow> (string \<Rightarrow> 'a option) \<Rightarrow> string \<Rightarrow> 'a option" where
  "star P k [] = k []"
| "star P k (c # cs) =
     (if P c
      then (case star P k cs of Some r \<Rightarrow> Some r | None \<Rightarrow> k (c # cs))
      else k (c # cs))"


text \<open>\<open>lit p k\<close> is the literal text \<open>p\<close> followed by \<open>k\<close>.\<close>

definition lit :: "string \<Rightarrow> (string \<Rightarrow> 'a option) \<Rightarrow> string \<Rightarrow> 'a option" where
  "lit p k s = (if startswith s p then k (drop (length p) s) else None)"

text \<open>\<open>opt_char c k\<close> is \<open>c?\<close> followed by \<open>k\<close>: with the character first, then without.\<close>

definition opt_char :: "char \<Rightarrow> (string \<Rightarrow> 'a option) \<Rightarrow> string \<Rightarrow> 'a option" where
  "opt_char c k s =
     (case s of
        [] \<Rightarrow> k []
      | x # xs \<Rightarrow>
          (if x = c then (case k xs of Some r \<Rightarrow> Some r | None \<Rightarrow> k s) else k s))"


text \<open>
  The capturing pieces take the text captured so far and give it to what follows.
  \<open>star_cap P k g\<close> is the rest of a group \<open>(P*)\<close> that has captured \<open>g\<close>, followed by
  \<open>k\<close>; \<open>plus_cap P k\<close> is \<open>(P+)\<close> followed by \<open>k\<close>. \<open>lazy_cap k g\<close> is the rest of a group
  \<open>(.*?)\<close> under \<open>re.DOTALL\<close> that has captured \<open>g\<close>, followed by \<open>k\<close>: the shortest run
  first, then longer ones.
\<close>

fun star_cap ::
  "(char \<Rightarrow> bool) \<Rightarrow> (string \<Rightarrow> string \<Rightarrow> 'a option) \<Rightarrow> string \<Rightarrow> string \<Rightarrow> 'a option"
where
  "star_cap P k g [] = k g []"
| "star_cap P k g (c # cs) =
     (if P c
      then (case star_cap P k (g @ [c]) cs of Some r \<Rightarrow> Some r | None \<Rightarrow> k g (c # cs))
      else k g (c # cs))"

definition plus_cap ::
  "(char \<Rightarrow> bool) \<Rightarrow> (string \<Rightarrow> string \<Rightarrow> 'a option) \<Rightarrow> string \<Rightarrow> 'a option"
where
  "plus_cap P k s = (case s of [] \<Rightarrow> None | c # cs \<Rightarrow> if P c then star_cap P k [c] cs else None)"



text \<open>
  \<open>at_end g\<close> is \<open>$\<close> at the end of a pattern whose group has captured \<open>g\<close>: it holds at
  the end of the text and before the newline that ends the text. \<open>dot_plus_end\<close> is
  \<open>(.+)$\<close>, where the dot is any character but a newline.
\<close>

definition at_end :: "string \<Rightarrow> string \<Rightarrow> string option" where
  "at_end g r = (if r = [] \<or> r = [NL] then Some g else None)"

definition dot_plus_end :: "string \<Rightarrow> string option" where
  "dot_plus_end = plus_cap (\<lambda>c. c \<noteq> NL) at_end"

text \<open>\<open>^##\s*(.+)$\<close>\<close>

definition header_match :: "string \<Rightarrow> string option" where
  "header_match = lit ''##'' (star is_space dot_plus_end)"

text \<open>\<open>^>\s*Correct Answers?:\s*(.+)$\<close>\<close>

definition correct_match :: "string \<Rightarrow> string option" where
  "correct_match =
     lit ''>'' (star is_space (lit ''Correct Answer'' (opt_char CHR ''s''
       (lit '':'' (star is_space dot_plus_end)))))"

text \<open>\<open>^>\s*Overall Feedback:\s*(.+)$\<close>\<close>

definition feedback_match :: "string \<Rightarrow> string option" where
  "feedback_match = lit ''>'' (star is_space (lit ''Overall Feedback:'' (star is_space dot_plus_end)))"

text \<open>\<open>^([A-F])\.\s*(.+)$\<close>, with both groups.\<close>

definition option_match :: "string \<Rightarrow> (char \<times> string) option" where
  "option_match s =
     (case s of
        c # d # rest \<Rightarrow>
          (if is_AF c \<and> d = CHR ''.'' then map_option (Pair c) (star is_space dot_plus_end rest)
           else None)
      | _ \<Rightarrow> None)"

text \<open>
  \<open>re.findall(r"\b([A-F])(?:\.|,|\s|$)", answer_text)\<close>, scanning from the left. The
  first argument tells whether the character before the current position is a word
  character (there is none at the start), which is what \<open>\b\<close> looks at. A match takes the
  letter and, unless it ends the text, the character after it; the scan goes on behind
  the match. A newline is whitespace, so \<open>$\<close> only ever decides at the end of the text.
\<close>

fun findall_from :: "bool \<Rightarrow> string \<Rightarrow> char list" where
  "findall_from pw [] = []"
| "findall_from pw [c] = (if pw \<noteq> is_word c \<and> is_AF c then [c] else [])"
| "findall_from pw (c # d # ds) =
     (if pw \<noteq> is_word c \<and> is_AF c \<and> (d = CHR ''.'' \<or> d = CHR '','' \<or> is_space d)
      then c # findall_from (is_word d) ds
      else findall_from (is_word c) (d # ds))"

definition findall_letters :: "string \<Rightarrow> char list" where
  "findall_letters s = findall_from False s"

section \<open>\<open>parse_question\<close>\<close>

text \<open>One answer choice, the dictionary with the keys \<open>letter\<close>, \<open>text\<close> and \<open>correct\<close>.\<close>

record quiz_option =
  letter :: char
  opt_text :: string
  correct :: bool

text \<open>The dictionary that \<open>parse_question\<close> returns.\<close>

record question =
  q_num :: int
  q_type :: string
  q_title :: string
  q_text :: string
  q_options :: "quiz_option list"
  q_correct_explanation :: string
  q_short_answer :: string

text \<open>The local variables of \<open>parse_question\<close> that its loop over the lines updates.\<close>

record pstate =
  question_text_lines :: "string list"
  options :: "quiz_option list"
  correct_letters :: "char list"
  correct_explanation :: string
  short_answer_text :: string
  title :: string
  is_short_answer :: bool
  in_code_block :: bool
  code_block_content :: "string list"

definition init_pstate :: pstate where
  "init_pstate =
     \<lparr>question_text_lines = [], options = [], correct_letters = [],
      correct_explanation = [], short_answer_text = [], title = [],
      is_short_answer = False, in_code_block = False, code_block_content = []\<rparr>"

text \<open>The branch taken for a correct-answer line, given the text of its capture group.\<close>

definition on_correct_answer :: "pstate \<Rightarrow> string \<Rightarrow> pstate" where
  "on_correct_answer st g =
     (let answer_text = strip g;
          letter_match = findall_letters answer_text;
          st1 = st\<lparr>correct_letters := letter_match\<rparr>
      in if correct_letters st1 = [] then st1\<lparr>short_answer_text := answer_text\<rparr> else st1)"

text \<open>The body of the loop, for one line.\<close>

definition parse_line :: "pstate \<Rightarrow> string \<Rightarrow> pstate" where
  "parse_line st line =
     (let stripped = strip line in
      if startswith stripped ''```'' then
        (if in_code_block st
         then st\<lparr>in_code_block := False,
                 question_text_lines :=
                   question_text_lines st @ [join [NL] (code_block_content st @ [line])],
                 code_block_content := []\<rparr>
         else st\<lparr>in_code_block := True, code_block_content := [line]\<rparr>)
      else if in_code_block st then st\<lparr>code_block_content := code_block_content st @ [line]\<rparr>
      else if stripped = [] \<or> stripped = ''---'' then st
      else case header_match stripped of
        Some g \<Rightarrow> st\<lparr>title := strip g\<rparr>
      | None \<Rightarrow>
      if contains stripped ''**Short Answer Question:**''
         \<or> contains stripped ''Short Answer Question''
      then st\<lparr>is_short_answer := True\<rparr>
      else case correct_match stripped of
        Some g \<Rightarrow> on_correct_answer st g
      | None \<Rightarrow>
      (case feedback_match stripped of
        Some g \<Rightarrow> st\<lparr>correct_explanation := strip g\<rparr>
      | None \<Rightarrow>
      (case option_match stripped of
        Some (l, t) \<Rightarrow>
          st\<lparr>options := options st @ [\<lparr>letter = l, opt_text = strip t, correct = False\<rparr>]\<rparr>
      | None \<Rightarrow>
      if startswith stripped ''*Reference:'' \<or> startswith stripped ''*Note:'' then st
      else st\<lparr>question_text_lines := question_text_lines st @ [line]\<rparr>)))"

text \<open>The loop over the lines of the block.\<close>

definition scan_lines :: "string list \<Rightarrow> pstate" where
  "scan_lines lines = foldl parse_line init_pstate lines"

text \<open>The second loop: an option is correct when its letter is a correct letter.\<close>

definition mark_correct :: "char list \<Rightarrow> quiz_option list \<Rightarrow> quiz_option list" where
  "mark_correct letters opts =
     map (\<lambda>opt. if letter opt \<in> set letters then opt\<lparr>correct := True\<rparr> else opt) opts"

text \<open>What follows the loops, from the final values of the local variables.\<close>

definition build_question :: "pstate \<Rightarrow> int \<Rightarrow> question option" where
  "build_question st question_num =
     (let opts = mark_correct (correct_letters st) (options st);
          question_text = strip (join [NL] (question_text_lines st))
      in if question_text = [] then None
         else
           let correct_count = length (filter correct opts);
               qt = (if is_short_answer st \<or> opts = [] then ''SA''
                     else if correct_count > 1 then ''MS''
                     else ''MC'');
               expl = (if qt = ''SA'' \<and> short_answer_text st \<noteq> [] \<and> correct_explanation st = []
                       then short_answer_text st
                       else correct_explanation st)
           in Some \<lparr>q_num = question_num, q_type = qt, q_title = title st,
                    q_text = question_text, q_options = opts,
                    q_correct_explanation = expl,
                    q_short_answer = (if qt = ''SA'' then short_answer_text st else [])\<rparr>)"

definition parse_question :: "string list \<Rightarrow> int \<Rightarrow> question option" where
  "parse_question lines question_num =
     (if lines = [] then None else build_question (scan_lines lines) question_num)"

section \<open>\<open>parse_quiz_file\<close>\<close>

text \<open>\<open>content.split("\n")\<close>: the pieces between the newlines, at least one.\<close>

fun split_nl :: "string \<Rightarrow> string list" where
  "split_nl [] = [[]]"
| "split_nl (c # cs) =
     (if c = NL then [] # split_nl cs
      else (case split_nl cs of [] \<Rightarrow> [[c]] | x # xs \<Rightarrow> (c # x) # xs))"

text \<open>The local variables of \<open>parse_quiz_file\<close> that its loop updates.\<close>

record fstate =
  questions :: "question list"
  current_block :: "string list"
  question_num :: int
  in_questions :: bool

definition init_fstate :: fstate where
  "init_fstate = \<lparr>questions = [], current_block = [], question_num = 0, in_questions = False\<rparr>"

text \<open>
  The statement that both header branches of the loop share: the block collected so far
  is parsed, and its question, if there is one, is appended.
\<close>

definition close_block :: "fstate \<Rightarrow> fstate" where
  "close_block st =
     (if current_block st \<noteq> [] \<and> question_num st > 0
      then (case parse_question (current_block st) (question_num st) of
              Some q \<Rightarrow> st\<lparr>questions := questions st @ [q]\<rparr>
            | None \<Rightarrow> st)
      else st)"

text \<open>
  The loop over the lines of the document. At a \<open>## Learning Objectives\<close> line the loop
  is left (\<open>break\<close>): the lines after it are not looked at.
\<close>

fun split_loop :: "fstate \<Rightarrow> string list \<Rightarrow> fstate" where
  "split_loop st [] = st"
| "split_loop st (line # rest) =
     (let stripped = strip line in
      if startswith stripped ''## '' \<and> \<not> startswith stripped ''## Learning Objectives''
      then split_loop
             ((close_block st)\<lparr>in_questions := True, question_num := question_num st + 1,
                               current_block := [line]\<rparr>) rest
      else if startswith stripped ''## Learning Objectives'' then close_block st
      else if in_questions st
      then split_loop (st\<lparr>current_block := current_block st @ [line]\<rparr>) rest
      else split_loop st rest)"

text \<open>The statement after the loop, on the last block.\<close>

definition last_block :: "fstate \<Rightarrow> question list" where
  "last_block st =
     (if current_block st \<noteq> [] \<and> question_num st > 0
      then (case parse_question (current_block st) (question_num st) of
              Some q \<Rightarrow>
                (if questions st = [] \<or> q_num (last (questions st)) \<noteq> q_num q
                 then questions st @ [q] else questions st)
            | None \<Rightarrow> questions st)
      else questions st)"

text \<open>\<open>parse_quiz_file\<close> on the lines of the file, and on its content.\<close>

definition parse_quiz_lines :: "string list \<Rightarrow> question list" where
  "parse_quiz_lines lines = last_block (split_loop init_fstate lines)"

definition parse_quiz_file :: "string \<Rightarrow> question list" where
  "parse_quiz_file content = parse_quiz_lines (split_nl content)"

section \<open>\<open>format_question_text\<close>\<close>














section \<open>The block splitter as the specification describes it\<close>

text \<open>
  The specification (section 4.1) describes the splitter by its result: the document up
  to the trailer header is cut into groups, a group starts at each level-2 header and
  runs to the next one, the lines before the first header belong to no group, and the
  groups are numbered from 1 in document order. The definitions below follow that
  description; they are compared with \<open>parse_quiz_lines\<close> in the lemmas.
\<close>

definition is_trailer :: "string \<Rightarrow> bool" where
  "is_trailer line = startswith (strip line) ''## Learning Objectives''"

definition is_header :: "string \<Rightarrow> bool" where
  "is_header line = (startswith (strip line) ''## '' \<and> \<not> is_trailer line)"

definition before_trailer :: "string list \<Rightarrow> string list" where
  "before_trailer lines = takeWhile (\<lambda>l. \<not> is_trailer l) lines"

fun groups_of :: "string list \<Rightarrow> string list list" where
  "groups_of [] = []"
| "groups_of (l # ls) =
     (if is_header l then (l # takeWhile (\<lambda>x. \<not> is_header x) ls) # groups_of ls
      else groups_of ls)"

definition spec_blocks :: "string list \<Rightarrow> string list list" where
  "spec_blocks lines = groups_of (before_trailer lines)"

text \<open>What the group \<open>b\<close> with the number \<open>n\<close> adds to the output: one question or none.\<close>

definition emitted :: "string list \<Rightarrow> int \<Rightarrow> question list" where
  "emitted b n = (case parse_question b n of Some q \<Rightarrow> [q] | None \<Rightarrow> [])"

fun spec_questions :: "int \<Rightarrow> string list list \<Rightarrow> question list" where
  "spec_questions n [] = []"
| "spec_questions n (b # bs) = emitted b n @ spec_questions (n + 1) bs"

text \<open>
  The state of the loop of \<open>parse_quiz_file\<close> once a first header has been read: a block
  is open, and the questions collected so far have smaller numbers than the open block.
\<close>

definition open_state :: "fstate \<Rightarrow> bool" where
  "open_state st \<longleftrightarrow>
     in_questions st \<and> current_block st \<noteq> [] \<and> 0 < question_num st \<and>
     (\<forall>q \<in> set (questions st). q_num q < question_num st)"

section \<open>The correct letters as the specification describes them\<close>

text \<open>
  The specification (section 4.2, rule 4) describes the correct letters by position: a
  letter of the answer text counts when it is one of A to F, stands alone (no word
  character right before it) and is followed by a period, a comma, whitespace or the end
  of the text. \<open>spec_letters\<close> lists the letters at these positions from left to right.
\<close>

definition standalone_at :: "string \<Rightarrow> nat \<Rightarrow> bool" where
  "standalone_at s i =
     (is_AF (s ! i) \<and> (i = 0 \<or> \<not> is_word (s ! (i - 1))) \<and>
      (Suc i = length s \<or> s ! Suc i = CHR ''.'' \<or> s ! Suc i = CHR '','' \<or>
       is_space (s ! Suc i)))"

definition spec_letters :: "string \<Rightarrow> char list" where
  "spec_letters s = map (\<lambda>i. s ! i) (filter (standalone_at s) [0..<length s])"

text \<open>The same positions when the text is the rest of a longer one, for the induction.\<close>

definition standalone_from :: "bool \<Rightarrow> string \<Rightarrow> nat \<Rightarrow> bool" where
  "standalone_from pw s i =
     (is_AF (s ! i) \<and> (if i = 0 then \<not> pw else \<not> is_word (s ! (i - 1))) \<and>
      (Suc i = length s \<or> s ! Suc i = CHR ''.'' \<or> s ! Suc i = CHR '','' \<or>
       is_space (s ! Suc i)))"

definition letters_from :: "bool \<Rightarrow> string \<Rightarrow> char list" where
  "letters_from pw s = map (\<lambda>i. s ! i) (filter (standalone_from pw s) [0..<length s])"

section \<open>The markup translator as the specification describes it\<close>














section \<open>Lemmas\<close>

subsection \<open>The question parser: options and results\<close>







lemma build_question_Some:
  "build_question st n = Some q \<Longrightarrow>
     q_options q = mark_correct (correct_letters st) (options st) \<and> q_num q = n \<and>
     q_text q = strip (join [NL] (question_text_lines st)) \<and> q_text q \<noteq> [] \<and>
     q_type q = (if is_short_answer st \<or> q_options q = [] then ''SA''
                 else if 1 < length (filter correct (q_options q)) then ''MS'' else ''MC'')"
  by (auto simp: build_question_def Let_def split: if_splits)

lemma parse_question_Some:
  "parse_question lines n = Some q \<Longrightarrow> lines \<noteq> [] \<and> build_question (scan_lines lines) n = Some q"
  by (auto simp: parse_question_def split: if_splits)

lemma parse_question_num: "parse_question b n = Some q \<Longrightarrow> q_num q = n"
  using parse_question_Some build_question_Some by blast

subsection \<open>The block splitter: the loop and the groups\<close>

text \<open>
  The loop of \<open>parse_quiz_file\<close> and the statement after it give the questions of the
  groups of the document, in order: the last block is added once, whether the loop ends
  at the trailer header (and the block is parsed again after the loop) or at the end of
  the document.
\<close>

lemma last_block_open:
  assumes "open_state st"
  shows "last_block st = questions st @ emitted (current_block st) (question_num st)"
proof (cases "parse_question (current_block st) (question_num st)")
  case None
  then show ?thesis using assms by (simp add: last_block_def emitted_def open_state_def)
next
  case (Some q)
  then have n: "q_num q = question_num st" by (rule parse_question_num)
  have "questions st = [] \<or> q_num (last (questions st)) \<noteq> q_num q"
  proof (cases "questions st = []")
    case False
    then have "last (questions st) \<in> set (questions st)" by simp
    with assms have "q_num (last (questions st)) < question_num st"
      by (simp add: open_state_def)
    with n show ?thesis by simp
  qed simp
  with Some assms show ?thesis by (simp add: last_block_def emitted_def open_state_def)
qed

lemma questions_close_block:
  assumes "open_state st"
  shows "questions (close_block st) = questions st @ emitted (current_block st) (question_num st)"
  using assms by (simp add: close_block_def emitted_def open_state_def split: option.splits)

lemma last_block_close_block:
  assumes "open_state st"
  shows "last_block (close_block st) = questions st @ emitted (current_block st) (question_num st)"
proof (cases "parse_question (current_block st) (question_num st)")
  case None
  then have "close_block st = st" by (simp add: close_block_def)
  then show ?thesis using last_block_open[OF assms] by simp
next
  case (Some q)
  then have n: "q_num q = question_num st" by (rule parse_question_num)
  from Some assms have c: "close_block st = st\<lparr>questions := questions st @ [q]\<rparr>"
    by (simp add: close_block_def open_state_def)
  show ?thesis using Some assms n
    by (simp add: c last_block_def emitted_def open_state_def)
qed

lemma emitted_num: "q \<in> set (emitted b n) \<Longrightarrow> q_num q = n"
  by (cases "parse_question b n") (auto simp: emitted_def dest: parse_question_num)

lemma open_state_header:
  assumes "open_state st"
  shows "open_state ((close_block st)\<lparr>in_questions := True, question_num := question_num st + 1,
                               current_block := [line]\<rparr>)"
  using assms questions_close_block[OF assms]
  by (auto simp: open_state_def dest: emitted_num)

lemma split_loop_open:
  assumes "open_state st"
  shows "last_block (split_loop st ls) =
     questions st @ spec_questions (question_num st)
       ((current_block st @ takeWhile (\<lambda>x. \<not> is_header x) (before_trailer ls))
          # groups_of (before_trailer ls))"
  using assms
proof (induction ls arbitrary: st)
  case Nil
  then show ?case by (simp add: last_block_open before_trailer_def emitted_def)
next
  case (Cons line rest)
  show ?case
  proof (cases "is_trailer line")
    case True
    then have "split_loop st (line # rest) = close_block st"
      by (simp add: is_trailer_def)
    with True Cons.prems show ?thesis
      by (simp add: last_block_close_block before_trailer_def emitted_def)
  next
    case nt: False
    show ?thesis
    proof (cases "is_header line")
      case True
      let ?st' = "(close_block st)\<lparr>in_questions := True, question_num := question_num st + 1,
                               current_block := [line]\<rparr>"
      from True nt have "split_loop st (line # rest) = split_loop ?st' rest"
        by (simp add: is_header_def is_trailer_def)
      moreover have "open_state ?st'" using Cons.prems by (rule open_state_header)
      ultimately have "last_block (split_loop st (line # rest)) =
          questions ?st' @ spec_questions (question_num ?st')
       ((current_block ?st' @ takeWhile (\<lambda>x. \<not> is_header x) (before_trailer rest))
          # groups_of (before_trailer rest))"
        using Cons.IH[of ?st'] by simp
      then show ?thesis using True nt questions_close_block[OF Cons.prems]
        by (simp add: before_trailer_def emitted_def)
    next
      case False
      let ?st' = "st\<lparr>current_block := current_block st @ [line]\<rparr>"
      from False nt Cons.prems have "split_loop st (line # rest) = split_loop ?st' rest"
        by (simp add: is_header_def is_trailer_def open_state_def)
      moreover have "open_state ?st'" using Cons.prems by (simp add: open_state_def)
      ultimately have "last_block (split_loop st (line # rest)) =
          questions ?st' @ spec_questions (question_num ?st')
       ((current_block ?st' @ takeWhile (\<lambda>x. \<not> is_header x) (before_trailer rest))
          # groups_of (before_trailer rest))"
        using Cons.IH[of ?st'] by simp
      then show ?thesis using False nt
        by (simp add: before_trailer_def)
    qed
  qed
qed

lemma split_loop_init:
  "last_block (split_loop init_fstate ls) = spec_questions 1 (groups_of (before_trailer ls))"
proof (induction ls)
  case Nil
  then show ?case by (simp add: last_block_def init_fstate_def before_trailer_def)
next
  case (Cons line rest)
  show ?case
  proof (cases "is_trailer line")
    case True
    then have "split_loop init_fstate (line # rest) = close_block init_fstate"
      by (simp add: is_trailer_def)
    with True show ?thesis
      by (simp add: close_block_def last_block_def init_fstate_def before_trailer_def)
  next
    case nt: False
    show ?thesis
    proof (cases "is_header line")
      case True
      let ?st' = "(close_block init_fstate)\<lparr>in_questions := True,
                     question_num := question_num init_fstate + 1, current_block := [line]\<rparr>"
      from True nt have "split_loop init_fstate (line # rest) = split_loop ?st' rest"
        by (simp add: is_header_def is_trailer_def)
      moreover have o: "open_state ?st'"
        by (simp add: open_state_def close_block_def init_fstate_def)
      moreover have "questions ?st' = []" "question_num ?st' = 1" "current_block ?st' = [line]"
        by (simp_all add: close_block_def init_fstate_def)
      ultimately show ?thesis using split_loop_open[OF o, of rest] True nt
        by (simp add: before_trailer_def)
    next
      case False
      with nt have "split_loop init_fstate (line # rest) = split_loop init_fstate rest"
        by (simp add: is_header_def is_trailer_def init_fstate_def)
      with Cons.IH False nt show ?thesis by (simp add: before_trailer_def)
    qed
  qed
qed

lemma parse_quiz_lines_spec: "parse_quiz_lines ls = spec_questions 1 (spec_blocks ls)"
  by (simp add: parse_quiz_lines_def spec_blocks_def split_loop_init)

subsection \<open>The correct letters: the scan and the positions\<close>

lemma is_AF_word: "is_AF c \<Longrightarrow> is_word c"
  by (auto simp: is_AF_def is_word_def Let_def)

lemma is_space_not_AF: "is_space c \<Longrightarrow> \<not> is_AF c"
  by (auto simp: is_AF_def is_space_def Let_def)

lemma sep_not_AF: "\<not> is_AF (CHR ''.'')" "\<not> is_AF (CHR '','')"
  by (simp_all add: is_AF_def)

lemma standalone_from_Suc:
  "standalone_from pw (c # cs) (Suc i) = standalone_from (is_word c) cs i"
  by (cases i) (simp_all add: standalone_from_def)

lemma letters_from_Nil: "letters_from pw [] = []"
  by (simp add: letters_from_def)

lemma letters_from_Cons:
  "letters_from pw (c # cs) =
     (if standalone_from pw (c # cs) 0 then [c] else []) @ letters_from (is_word c) cs"
proof -
  have u: "[0..<length (c # cs)] = 0 # map Suc [0..<length cs]"
    by (simp add: upt_conv_Cons map_Suc_upt del: upt_Suc)
  have f: "filter (standalone_from pw (c # cs)) (map Suc [0..<length cs]) =
           map Suc (filter (standalone_from (is_word c) cs) [0..<length cs])"
    by (simp add: filter_map o_def standalone_from_Suc)
  show ?thesis
    unfolding letters_from_def u by (simp add: f o_def)
qed

lemma findall_from_letters: "findall_from pw s = letters_from pw s"
proof (induction pw s rule: findall_from.induct)
  case (1 pw)
  then show ?case by (simp add: letters_from_Nil)
next
  case (2 pw c)
  then show ?case
    by (auto simp: letters_from_Cons letters_from_Nil standalone_from_def dest: is_AF_word)
next
  case (3 pw c d ds)
  show ?case
  proof (cases "pw \<noteq> is_word c \<and> is_AF c \<and> (d = CHR ''.'' \<or> d = CHR '','' \<or> is_space d)")
    case True
    then have nd: "\<not> is_AF d" using sep_not_AF is_space_not_AF by blast
    from True have c0: "standalone_from pw (c # d # ds) 0"
      using is_AF_word[of c] by (auto simp: standalone_from_def)
    from nd have d0: "\<not> standalone_from (is_word c) (d # ds) 0"
      by (simp add: standalone_from_def)
    from True have "findall_from pw (c # d # ds) = c # findall_from (is_word d) ds" by simp
    also have "\<dots> = c # letters_from (is_word d) ds" using 3(1)[OF True] by simp
    also have "\<dots> = letters_from pw (c # d # ds)"
      using c0 d0 by (simp add: letters_from_Cons)
    finally show ?thesis .
  next
    case False
    then have c0: "\<not> standalone_from pw (c # d # ds) 0"
      using is_AF_word[of c] by (auto simp: standalone_from_def)
    from False have "findall_from pw (c # d # ds) = findall_from (is_word c) (d # ds)" by auto
    also have "\<dots> = letters_from (is_word c) (d # ds)" using 3(2)[OF False] by simp
    also have "\<dots> = letters_from pw (c # d # ds)"
      using c0 by (simp add: letters_from_Cons[of pw c])
    finally show ?thesis .
  qed
qed

lemma standalone_from_False: "standalone_from False s = standalone_at s"
  by (auto simp: standalone_from_def standalone_at_def fun_eq_iff)

lemma findall_letters_spec: "findall_letters s = spec_letters s"
  by (simp add: findall_letters_def findall_from_letters letters_from_def spec_letters_def
      standalone_from_False)

subsection \<open>The question parser: a correct-answer line\<close>

lemma correct_match_first: "correct_match s = Some g \<Longrightarrow> \<exists>r. s = CHR ''>'' # r"
  by (cases s) (auto simp: correct_match_def lit_def startswith_def split: if_splits)

lemma header_match_first: "header_match s = Some g \<Longrightarrow> \<exists>r. s = CHR ''#'' # r"
  by (cases s) (auto simp: header_match_def lit_def startswith_def split: if_splits)

lemma startswith_iff: "startswith s p \<longleftrightarrow> (\<exists>q. s = p @ q)"
  unfolding startswith_def
  by (metis append_eq_conv_conj append_take_drop_id)

lemma contains_iff: "contains s sub \<longleftrightarrow> (\<exists>p q. s = p @ sub @ q)"
proof (induction s)
  case Nil
  then show ?case by auto
next
  case (Cons c cs)
  show ?case
  proof
    assume "contains (c # cs) sub"
    then consider "startswith (c # cs) sub" | "contains cs sub" by auto
    then show "\<exists>p q. c # cs = p @ sub @ q"
    proof cases
      case 1
      then obtain q where "c # cs = sub @ q" by (auto simp: startswith_iff)
      then have "c # cs = [] @ sub @ q" by simp
      then show ?thesis by blast
    next
      case 2
      then obtain p q where "cs = p @ sub @ q" using Cons.IH by blast
      then have "c # cs = (c # p) @ sub @ q" by simp
      then show ?thesis by blast
    qed
  next
    assume "\<exists>p q. c # cs = p @ sub @ q"
    then obtain p q where pq: "c # cs = p @ sub @ q" by blast
    show "contains (c # cs) sub"
    proof (cases p)
      case Nil
      with pq have "startswith (c # cs) sub" by (auto simp: startswith_iff)
      then show ?thesis by simp
    next
      case (Cons a p')
      with pq have "cs = p' @ sub @ q" by simp
      then have "contains cs sub" using Cons.IH by blast
      then show ?thesis by simp
    qed
  qed
qed

lemma contains_phrase:
  assumes "contains s ''**Short Answer Question:**''"
  shows "contains s ''Short Answer Question''"
proof -
  from assms obtain p q where "s = p @ ''**Short Answer Question:**'' @ q"
    by (auto simp: contains_iff)
  then have "s = (p @ ''**'') @ ''Short Answer Question'' @ ('':**'' @ q)" by simp
  then show ?thesis unfolding contains_iff by blast
qed

lemma parse_line_correct:
  assumes "\<not> in_code_block st" and "correct_match (strip line) = Some g"
    and "\<not> contains (strip line) ''Short Answer Question''"
  shows "parse_line st line = on_correct_answer st g"
proof -
  obtain r where r: "strip line = CHR ''>'' # r" using correct_match_first[OF assms(2)] by blast
  then have a: "\<not> startswith (strip line) ''```''" "strip line \<noteq> []" "strip line \<noteq> ''---''"
    by (simp_all add: startswith_def)
  have h: "header_match (strip line) = None"
    using r header_match_first[of "strip line"] by (cases "header_match (strip line)") auto
  have c: "\<not> contains (strip line) ''**Short Answer Question:**''"
    using assms(3) contains_phrase by blast
  show ?thesis using assms a h c by (simp add: parse_line_def Let_def)
qed

lemma parse_line_no_correct:
  assumes "correct_match (strip line) = None"
  shows "correct_letters (parse_line st line) = correct_letters st \<and>
         short_answer_text (parse_line st line) = short_answer_text st"
  using assms by (simp add: parse_line_def Let_def split: option.splits prod.splits)

lemma foldl_no_correct:
  assumes "\<forall>l \<in> set post. correct_match (strip l) = None"
  shows "correct_letters (foldl parse_line st post) = correct_letters st \<and>
         short_answer_text (foldl parse_line st post) = short_answer_text st"
  using assms by (induction post arbitrary: st) (simp_all add: parse_line_no_correct)

lemma on_correct_answer_fields:
  "correct_letters (on_correct_answer st g) = findall_letters (strip g)"
  "findall_letters (strip g) = [] \<Longrightarrow> short_answer_text (on_correct_answer st g) = strip g"
  by (simp_all add: on_correct_answer_def Let_def)

subsection \<open>The question parser: an unterminated fence\<close>

lemma parse_line_in_code:
  assumes "in_code_block st" and "\<not> startswith (strip line) ''```''"
  shows "parse_line st line = st\<lparr>code_block_content := code_block_content st @ [line]\<rparr>"
  using assms by (simp add: parse_line_def Let_def)

lemma foldl_in_code:
  assumes "in_code_block st" and "\<forall>l \<in> set rest. \<not> startswith (strip l) ''```''"
  shows "foldl parse_line st rest = st\<lparr>code_block_content := code_block_content st @ rest\<rparr>"
  using assms
proof (induction rest arbitrary: st)
  case Nil
  then show ?case by simp
next
  case (Cons l rest)
  then have "parse_line st l = st\<lparr>code_block_content := code_block_content st @ [l]\<rparr>"
    by (simp add: parse_line_in_code)
  moreover have "in_code_block (st\<lparr>code_block_content := code_block_content st @ [l]\<rparr>)"
    using Cons.prems by simp
  ultimately show ?case using Cons.IH[of "st\<lparr>code_block_content := code_block_content st @ [l]\<rparr>"] Cons.prems
    by simp
qed

lemma parse_line_open_fence:
  assumes "\<not> in_code_block st" and "startswith (strip line) ''```''"
  shows "parse_line st line = st\<lparr>in_code_block := True, code_block_content := [line]\<rparr>"
  using assms by (simp add: parse_line_def Let_def)

lemma scan_lines_unterminated:
  assumes "\<not> in_code_block (scan_lines pre)" and "startswith (strip opn) ''```''"
    and "\<forall>l \<in> set rest. \<not> startswith (strip l) ''```''"
  shows "scan_lines (pre @ opn # rest) =
           (scan_lines pre)\<lparr>in_code_block := True, code_block_content := opn # rest\<rparr>"
proof -
  have "scan_lines (pre @ opn # rest) = foldl parse_line (parse_line (scan_lines pre) opn) rest"
    by (simp add: scan_lines_def)
  also have "\<dots> = foldl parse_line
      ((scan_lines pre)\<lparr>in_code_block := True, code_block_content := [opn]\<rparr>) rest"
    using assms(1,2) by (simp add: parse_line_open_fence)
  also have "\<dots> = (scan_lines pre)\<lparr>in_code_block := True, code_block_content := opn # rest\<rparr>"
    using assms(3) by (simp add: foldl_in_code)
  finally show ?thesis .
qed

lemma build_question_code_fields:
  "build_question (st\<lparr>in_code_block := b, code_block_content := c\<rparr>) n = build_question st n"
  by (simp add: build_question_def Let_def)

lemma build_question_empty_body:
  "strip (join [NL] (question_text_lines st)) = [] \<Longrightarrow> build_question st n = None"
  by (simp add: build_question_def)

lemma strip_Nil: "strip [] = []"
  by (simp add: strip_def)

lemma scan_lines_Nil: "scan_lines [] = init_pstate"
  by (simp add: scan_lines_def)

lemma build_question_init: "build_question init_pstate n = None"
  by (simp add: build_question_def init_pstate_def strip_Nil)

lemma parse_question_build: "parse_question lines n = build_question (scan_lines lines) n"
  by (simp add: parse_question_def scan_lines_Nil build_question_init)

subsection \<open>The block splitter: bodies, counts and numbers\<close>

lemma emitted_text: "q \<in> set (emitted b n) \<Longrightarrow> q_text q \<noteq> []"
  by (cases "parse_question b n")
     (auto simp: emitted_def dest!: parse_question_Some build_question_Some)

lemma spec_questions_text: "q \<in> set (spec_questions n bs) \<Longrightarrow> q_text q \<noteq> []"
  by (induction bs arbitrary: n) (auto dest: emitted_text)

lemma before_trailer_append:
  assumes "is_trailer t" and "\<forall>l \<in> set pre. \<not> is_trailer l"
  shows "before_trailer (pre @ t # post) = pre" "before_trailer pre = pre"
  using assms by (simp_all add: before_trailer_def takeWhile_append2)

lemma length_groups_of: "length (groups_of ls) = length (filter is_header ls)"
  by (induction ls) simp_all

lemma length_emitted: "length (emitted b n) = (if parse_question b n = None then 0 else 1)"
  by (cases "parse_question b n") (simp_all add: emitted_def)

lemma ex_less_Suc: "(\<exists>i<Suc m. P i) \<longleftrightarrow> P 0 \<or> (\<exists>i<m. P (Suc i))"
  by (metis less_Suc_eq_0_disj)

lemma length_spec_questions:
  "length (spec_questions n bs) \<le> length bs \<and>
   (length (spec_questions n bs) < length bs \<longleftrightarrow>
      (\<exists>i<length bs. parse_question (bs ! i) (n + int i) = None))"
proof (induction bs arbitrary: n)
  case Nil
  then show ?case by simp
next
  case (Cons b bs)
  have e: "(\<exists>i<length (b # bs). parse_question ((b # bs) ! i) (n + int i) = None) \<longleftrightarrow>
        parse_question b n = None \<or> (\<exists>i<length bs. parse_question (bs ! i) (n + 1 + int i) = None)"
    by (simp add: ex_less_Suc ac_simps)
  show ?case
  proof (cases "parse_question b n = None")
    case True
    then show ?thesis using Cons.IH[of "n + 1"] e by (simp add: length_emitted)
  next
    case False
    then show ?thesis using Cons.IH[of "n + 1"] e by (auto simp: length_emitted)
  qed
qed

lemma spec_questions_nums:
  "sorted_wrt (<) (map q_num (spec_questions n bs)) \<and>
   (\<forall>q \<in> set (spec_questions n bs). n \<le> q_num q)"
proof (induction bs arbitrary: n)
  case Nil
  then show ?case by simp
next
  case (Cons b bs)
  have e: "\<forall>q \<in> set (emitted b n). q_num q = n" by (simp add: emitted_num)
  have l: "\<forall>q \<in> set (spec_questions (n + 1) bs). n < q_num q"
    using Cons.IH[of "n + 1"] by auto
  have "sorted_wrt (<) (map q_num (emitted b n))"
    by (cases "parse_question b n") (simp_all add: emitted_def)
  with e l Cons.IH[of "n + 1"] show ?case
    by (auto simp: sorted_wrt_append)
qed

lemma distinct_count:
  "distinct (map f xs) \<Longrightarrow> length (filter (\<lambda>x. f x = k) xs) \<le> 1"
proof (induction xs)
  case Nil
  then show ?case by simp
next
  case (Cons x xs)
  show ?case
  proof (cases "f x = k")
    case True
    with Cons.prems have "\<forall>y \<in> set xs. f y \<noteq> k" by (metis distinct.simps(2) image_eqI list.simps(9) set_map)
    then have "filter (\<lambda>x. f x = k) xs = []" by (simp add: filter_empty_conv)
    with True show ?thesis by simp
  next
    case False
    with Cons show ?thesis by simp
  qed
qed

subsection \<open>The block splitter: the state at the end of the loop\<close>

lemma split_loop_open_state:
  assumes "open_state st" and "\<forall>l \<in> set ls. \<not> is_trailer l"
  shows "open_state (split_loop st ls)"
  using assms
proof (induction ls arbitrary: st)
  case Nil
  then show ?case by simp
next
  case (Cons line rest)
  from Cons.prems have nt: "\<not> startswith (strip line) ''## Learning Objectives''"
    by (simp add: is_trailer_def)
  show ?case
  proof (cases "startswith (strip line) ''## ''")
    case True
    then show ?thesis using nt Cons.prems Cons.IH open_state_header[OF Cons.prems(1)]
      by simp
  next
    case False
    have "open_state (st\<lparr>current_block := current_block st @ [line]\<rparr>)"
      using Cons.prems(1) by (simp add: open_state_def)
    then show ?thesis using False nt Cons.prems Cons.IH
      by (simp add: open_state_def)
  qed
qed

lemma split_loop_init_state:
  assumes "\<forall>l \<in> set ls. \<not> is_trailer l"
  shows "split_loop init_fstate ls = init_fstate \<or> open_state (split_loop init_fstate ls)"
  using assms
proof (induction ls)
  case Nil
  then show ?case by simp
next
  case (Cons line rest)
  from Cons.prems have nt: "\<not> startswith (strip line) ''## Learning Objectives''"
    by (simp add: is_trailer_def)
  show ?case
  proof (cases "startswith (strip line) ''## ''")
    case True
    let ?st' = "(close_block init_fstate)\<lparr>in_questions := True,
                     question_num := question_num init_fstate + 1, current_block := [line]\<rparr>"
    have "open_state ?st'" by (simp add: open_state_def close_block_def init_fstate_def)
    then have "open_state (split_loop ?st' rest)"
      using Cons.prems by (simp add: split_loop_open_state)
    then show ?thesis using True nt by simp
  next
    case False
    then have "split_loop init_fstate (line # rest) = split_loop init_fstate rest"
      using nt by (simp add: init_fstate_def)
    then show ?thesis using Cons by simp
  qed
qed

subsection \<open>The translator: substitution\<close>








subsection \<open>The translator: the patterns\<close>














subsection \<open>The translator: \<open>str.replace\<close>\<close>










subsection \<open>The translator: segments\<close>





subsection \<open>The translator: the fenced regions\<close>




subsection \<open>The translator: bold spans\<close>



subsection \<open>The translator: inline code spans\<close>




subsection \<open>The translator: line breaks\<close>



subsection \<open>The translator: the placeholder\<close>



subsection \<open>The translator: the markers of a code block\<close>




section \<open>The claims\<close>

subsection \<open>Claim C1\<close>

text \<open>
  C1 (amended). The claim gives three equivalences for the type of a question that
  \<open>parse_question\<close> returns. The first holds as stated: the type is \<open>SA\<close> exactly when the
  block was flagged as a short answer or has no options. The other two hold in the form
  the order of the tests of the source gives them: the type is \<open>MS\<close> exactly when more than
  one option is correct and the block was not flagged; it is \<open>MC\<close> exactly when the block
  was not flagged, has an option, and at most one option is correct.
\<close>

theorem kind_classification:
  assumes "parse_question lines n = Some q"
  shows "(q_type q = ''SA'' \<longleftrightarrow> is_short_answer (scan_lines lines) \<or> q_options q = []) \<and>
    (q_type q = ''MS'' \<longleftrightarrow>
       1 < length (filter correct (q_options q)) \<and> \<not> is_short_answer (scan_lines lines)) \<and>
    (q_type q = ''MC'' \<longleftrightarrow>
       length (filter correct (q_options q)) \<le> 1 \<and> q_options q \<noteq> [] \<and>
       \<not> is_short_answer (scan_lines lines))"
proof -
  from assms have b: "build_question (scan_lines lines) n = Some q"
    by (simp add: parse_question_Some)
  note t = build_question_Some[OF b]
  show ?thesis
  proof (cases "is_short_answer (scan_lines lines) \<or> q_options q = []")
    case True
    with t have "q_type q = ''SA''" by simp
    with True show ?thesis by auto
  next
    case False
    show ?thesis
    proof (cases "1 < length (filter correct (q_options q))")
      case True
      with False t have "q_type q = ''MS''" by simp
      with True False show ?thesis by auto
    next
      case F2: False
      with False t have "q_type q = ''MC''" by simp
      with F2 False show ?thesis by auto
    qed
  qed
qed

text \<open>
  The claim as stated fails twice. A block with two options and no correct-answer line
  gets the type \<open>MC\<close> although no option is correct; a flagged block with two correct
  options gets the type \<open>SA\<close>, not \<open>MS\<close>.
\<close>

theorem kind_classification_counterexample:
  "parse_question [''Q?'', ''A. x'', ''B. y''] 1 \<noteq> None \<and>
   \<not> (q_type (the (parse_question [''Q?'', ''A. x'', ''B. y''] 1)) = ''MC'' \<longleftrightarrow>
        length (filter correct (q_options (the (parse_question [''Q?'', ''A. x'', ''B. y''] 1)))) = 1 \<and>
        \<not> is_short_answer (scan_lines [''Q?'', ''A. x'', ''B. y''])) \<and>
   parse_question [''Short Answer Question'', ''Q?'', ''A. x'', ''B. y'', ''> Correct Answers: A, B''] 1
     \<noteq> None \<and>
   \<not> (q_type (the (parse_question
          [''Short Answer Question'', ''Q?'', ''A. x'', ''B. y'', ''> Correct Answers: A, B''] 1)) = ''MS''
        \<longleftrightarrow>
        1 < length (filter correct (q_options (the (parse_question
          [''Short Answer Question'', ''Q?'', ''A. x'', ''B. y'', ''> Correct Answers: A, B''] 1)))))"
  by code_simp

text \<open>The amended classification at a block with two correct options.\<close>

theorem kind_classification_witness:
  "parse_question [''Q?'', ''A. x'', ''B. y'', ''> Correct Answers: A, B''] 1 =
     Some \<lparr>q_num = 1, q_type = ''MS'', q_title = [], q_text = ''Q?'',
       q_options = [\<lparr>letter = CHR ''A'', opt_text = ''x'', correct = True\<rparr>,
                    \<lparr>letter = CHR ''B'', opt_text = ''y'', correct = True\<rparr>],
       q_correct_explanation = [], q_short_answer = []\<rparr> \<and>
   \<not> is_short_answer (scan_lines [''Q?'', ''A. x'', ''B. y'', ''> Correct Answers: A, B''])"
proof -
  let ?ls = "[''Q?'', ''A. x'', ''B. y'', ''> Correct Answers: A, B'']"
  let ?q = "\<lparr>q_num = 1, q_type = ''MS'', q_title = [], q_text = ''Q?'',
       q_options = [\<lparr>letter = CHR ''A'', opt_text = ''x'', correct = True\<rparr>,
                    \<lparr>letter = CHR ''B'', opt_text = ''y'', correct = True\<rparr>],
       q_correct_explanation = [], q_short_answer = []\<rparr>"
  have h: "parse_question ?ls 1 = Some ?q" by code_simp
  from kind_classification[OF h] h show ?thesis by simp
qed

subsection \<open>Claim C2\<close>

text \<open>
  C2. Take a block in which a line is read as a correct-answer declaration: it matches the
  pattern of the declaration, it does not stand inside a code fence, and it does not hold
  the short-answer phrase (which is tested first). If no later line of the block matches
  the pattern, the correct letters at the end of the block are exactly the standalone
  letters A to F of the remainder text that a period, a comma, whitespace or the end of
  the text follows, from left to right; and when there is no such letter, the whole
  remainder text is the short-answer text.
\<close>

theorem correct_letters_extraction:
  assumes "\<not> in_code_block (scan_lines pre)"
    and "correct_match (strip line) = Some g"
    and "\<not> contains (strip line) ''Short Answer Question''"
    and "\<forall>l \<in> set post. correct_match (strip l) = None"
  shows "correct_letters (scan_lines (pre @ line # post)) = spec_letters (strip g) \<and>
         (spec_letters (strip g) = [] \<longrightarrow>
            short_answer_text (scan_lines (pre @ line # post)) = strip g)"
proof -
  have s: "scan_lines (pre @ line # post) =
           foldl parse_line (on_correct_answer (scan_lines pre) g) post"
    using parse_line_correct[OF assms(1-3)] by (simp add: scan_lines_def)
  show ?thesis
    unfolding s using foldl_no_correct[OF assms(4)] on_correct_answer_fields
    by (simp add: findall_letters_spec)
qed

text \<open>
  The extraction at a declaration with two letters, and at one with none, where the
  remainder becomes the short-answer text.
\<close>

theorem correct_letters_extraction_witness:
  "\<not> in_code_block (scan_lines [''Q?'', ''A. x'']) \<and>
   correct_match (strip ''> Correct Answers: A, C'') = Some ''A, C'' \<and>
   \<not> contains (strip ''> Correct Answers: A, C'') ''Short Answer Question'' \<and>
   correct_match (strip ''> Overall Feedback: ok'') = None \<and>
   correct_letters (scan_lines ([''Q?'', ''A. x''] @ ''> Correct Answers: A, C'' #
      [''> Overall Feedback: ok''])) = ''AC'' \<and>
   correct_match (strip ''> Correct Answer: 42'') = Some ''42'' \<and>
   \<not> contains (strip ''> Correct Answer: 42'') ''Short Answer Question'' \<and>
   spec_letters (strip ''42'') = [] \<and>
   short_answer_text (scan_lines ([''Q?'', ''A. x''] @ ''> Correct Answer: 42'' #
      [''> Overall Feedback: ok''])) = ''42''"
proof -
  have a: "\<not> in_code_block (scan_lines [''Q?'', ''A. x''])" by code_simp
  have b: "correct_match (strip ''> Correct Answers: A, C'') = Some ''A, C''" by code_simp
  have c: "\<not> contains (strip ''> Correct Answers: A, C'') ''Short Answer Question''" by code_simp
  have d: "\<forall>l \<in> set [''> Overall Feedback: ok'']. correct_match (strip l) = None" by code_simp
  have e: "spec_letters (strip ''A, C'') = ''AC''" by code_simp
  have b': "correct_match (strip ''> Correct Answer: 42'') = Some ''42''" by code_simp
  have c': "\<not> contains (strip ''> Correct Answer: 42'') ''Short Answer Question''" by code_simp
  have e': "spec_letters (strip ''42'') = []" by code_simp
  have s: "strip ''42'' = ''42''" by code_simp
  from correct_letters_extraction[OF a b c d] correct_letters_extraction[OF a b' c' d] a b c d e b' c' e' s show ?thesis by simp
qed

subsection \<open>Claim C3\<close>




subsection \<open>Claim C4\<close>

text \<open>
  C4. When the document has a line whose stripped text starts with
  \<open>## Learning Objectives\<close>, the output is the output for the lines before the first
  such line: nothing at or after it adds a question, and every group before it adds the
  question it holds.
\<close>

theorem trailer_stops_splitting:
  assumes "split_nl content = pre @ t # post"
    and "is_trailer t" and "\<forall>l \<in> set pre. \<not> is_trailer l"
  shows "parse_quiz_file content = parse_quiz_lines pre \<and>
         parse_quiz_file content = spec_questions 1 (groups_of pre)"
  using before_trailer_append[OF assms(2,3)]
  by (simp add: parse_quiz_file_def assms(1) parse_quiz_lines_spec spec_blocks_def)

text \<open>
  Scenario 5 of the specification: three questions, then the trailer header and a
  further header behind it, give three questions.
\<close>

theorem trailer_stops_splitting_witness:
  "split_nl ''# Quiz\<newline>\<newline>## T1\<newline>Q1?\<newline>A. x\<newline>B. y\<newline>> Correct Answer: A\<newline>## T2\<newline>Short Answer Question\<newline>Q2?\<newline>> Correct Answer: 42\<newline>## T3\<newline>Q3?\<newline>A. x\<newline>B. y\<newline>> Correct Answers: A, B\<newline>## Learning Objectives Covered\<newline>## T4\<newline>Q4?'' =
     [''# Quiz'', [], ''## T1'', ''Q1?'', ''A. x'', ''B. y'', ''> Correct Answer: A'',
      ''## T2'', ''Short Answer Question'', ''Q2?'', ''> Correct Answer: 42'',
      ''## T3'', ''Q3?'', ''A. x'', ''B. y'', ''> Correct Answers: A, B'']
      @ ''## Learning Objectives Covered'' # [''## T4'', ''Q4?''] \<and>
   is_trailer ''## Learning Objectives Covered'' \<and>
   list_all (\<lambda>l. \<not> is_trailer l)
     [''# Quiz'', [], ''## T1'', ''Q1?'', ''A. x'', ''B. y'', ''> Correct Answer: A'',
      ''## T2'', ''Short Answer Question'', ''Q2?'', ''> Correct Answer: 42'',
      ''## T3'', ''Q3?'', ''A. x'', ''B. y'', ''> Correct Answers: A, B''] \<and>
   map q_type (parse_quiz_file ''# Quiz\<newline>\<newline>## T1\<newline>Q1?\<newline>A. x\<newline>B. y\<newline>> Correct Answer: A\<newline>## T2\<newline>Short Answer Question\<newline>Q2?\<newline>> Correct Answer: 42\<newline>## T3\<newline>Q3?\<newline>A. x\<newline>B. y\<newline>> Correct Answers: A, B\<newline>## Learning Objectives Covered\<newline>## T4\<newline>Q4?'') =
     [''MC'', ''SA'', ''MS'']"
proof -
  let ?content = "''# Quiz\<newline>\<newline>## T1\<newline>Q1?\<newline>A. x\<newline>B. y\<newline>> Correct Answer: A\<newline>## T2\<newline>Short Answer Question\<newline>Q2?\<newline>> Correct Answer: 42\<newline>## T3\<newline>Q3?\<newline>A. x\<newline>B. y\<newline>> Correct Answers: A, B\<newline>## Learning Objectives Covered\<newline>## T4\<newline>Q4?''"
  let ?pre = "[''# Quiz'', [], ''## T1'', ''Q1?'', ''A. x'', ''B. y'', ''> Correct Answer: A'',
      ''## T2'', ''Short Answer Question'', ''Q2?'', ''> Correct Answer: 42'',
      ''## T3'', ''Q3?'', ''A. x'', ''B. y'', ''> Correct Answers: A, B'']"
  have s: "split_nl ?content = ?pre @ ''## Learning Objectives Covered'' # [''## T4'', ''Q4?'']"
    by code_simp
  have t: "is_trailer ''## Learning Objectives Covered''" by code_simp
  have p: "list_all (\<lambda>l. \<not> is_trailer l) ?pre" by code_simp
  then have p': "\<forall>l \<in> set ?pre. \<not> is_trailer l" unfolding list_all_iff .
  have v: "map q_type (parse_quiz_lines ?pre) = [''MC'', ''SA'', ''MS'']" by code_simp
  from trailer_stops_splitting[OF s t p'] have
    "parse_quiz_file ?content = parse_quiz_lines ?pre" by (rule conjunct1)
  with v have "map q_type (parse_quiz_file ?content) = [''MC'', ''SA'', ''MS'']" by simp
  with s t p show ?thesis by blast
qed

subsection \<open>Claim C5\<close>

text \<open>
  C5. The number of questions of the output is at most the number of level-2 header lines
  before the trailer header, and it is smaller exactly when \<open>parse_question\<close> returns
  \<open>None\<close> for one of the groups (with the number of the group).
\<close>

theorem question_count_bound:
  "length (parse_quiz_file content)
     \<le> length (filter is_header (before_trailer (split_nl content))) \<and>
   (length (parse_quiz_file content)
      < length (filter is_header (before_trailer (split_nl content))) \<longleftrightarrow>
    (\<exists>i<length (spec_blocks (split_nl content)).
       parse_question (spec_blocks (split_nl content) ! i) (1 + int i) = None))"
  using length_spec_questions[of 1 "spec_blocks (split_nl content)"]
  by (simp add: parse_quiz_file_def parse_quiz_lines_spec length_groups_of spec_blocks_def)

text \<open>Three headers, the second with an empty group: two questions.\<close>

theorem question_count_bound_witness:
  "length (parse_quiz_file ''## T1\<newline>Q1?\<newline>## T2\<newline>## T3\<newline>Q3?'') = 2 \<and>
   length (filter is_header
     (before_trailer (split_nl ''## T1\<newline>Q1?\<newline>## T2\<newline>## T3\<newline>Q3?''))) = 3 \<and>
   (\<exists>i<length (spec_blocks (split_nl ''## T1\<newline>Q1?\<newline>## T2\<newline>## T3\<newline>Q3?'')).
      parse_question
        (spec_blocks (split_nl ''## T1\<newline>Q1?\<newline>## T2\<newline>## T3\<newline>Q3?'') ! i)
        (1 + int i) = None)"
proof -
  let ?content = "''## T1\<newline>Q1?\<newline>## T2\<newline>## T3\<newline>Q3?''"
  have a: "length (parse_quiz_file ?content) = 2" by code_simp
  have b: "length (filter is_header (before_trailer (split_nl ?content))) = 3" by code_simp
  from question_count_bound[of ?content] a b show ?thesis by simp
qed

subsection \<open>Claim C6\<close>

text \<open>
  C6. \<open>parse_question\<close> returns \<open>None\<close> for the empty group and for every group whose body
  text is empty once stripped, whatever else the group holds; and no question of the
  output of \<open>parse_quiz_file\<close> has an empty body.
\<close>

theorem empty_body_discarded:
  "parse_question [] n = None \<and>
   (strip (join [NL] (question_text_lines (scan_lines lines))) = [] \<longrightarrow>
      parse_question lines n = None) \<and>
   (\<forall>q \<in> set (parse_quiz_file content). q_text q \<noteq> [])"
proof -
  have a: "parse_question [] n = None" by (simp add: parse_question_def)
  have b: "strip (join [NL] (question_text_lines (scan_lines lines))) = [] \<longrightarrow>
      parse_question lines n = None"
    by (simp add: parse_question_build build_question_empty_body)
  have c: "\<forall>q \<in> set (parse_quiz_file content). q_text q \<noteq> []"
    using spec_questions_text by (auto simp: parse_quiz_file_def parse_quiz_lines_spec)
  from a b c show ?thesis by blast
qed

text \<open>A group with a title, an option and a correct-answer line, and no body.\<close>

theorem empty_body_discarded_witness:
  "strip (join [NL] (question_text_lines (scan_lines [''## T'', ''A. x'', ''> Correct Answer: A'']))) = [] \<and>
   parse_question [''## T'', ''A. x'', ''> Correct Answer: A''] 1 = None \<and>
   q_text ` set (parse_quiz_file ''## T1\<newline>Q1?\<newline>## T2\<newline>A. x'') = {''Q1?''} \<and>
   [] \<notin> q_text ` set (parse_quiz_file ''## T1\<newline>Q1?\<newline>## T2\<newline>A. x'')"
proof -
  have a: "strip (join [NL] (question_text_lines (scan_lines [''## T'', ''A. x'', ''> Correct Answer: A'']))) = []"
    by code_simp
  have b: "q_text ` set (parse_quiz_file ''## T1\<newline>Q1?\<newline>## T2\<newline>A. x'') = {''Q1?''}"
    by code_simp
  from empty_body_discarded[of 1 "[''## T'', ''A. x'', ''> Correct Answer: A'']" "''## T1\<newline>Q1?\<newline>## T2\<newline>A. x''"] a b
  show ?thesis by auto
qed

subsection \<open>Claim C7\<close>

text \<open>
  C7. When the document has no trailer header and the block that is open at the end of
  the loop yields a question, that question is the last one of the output and occurs in
  it once.
\<close>

theorem final_block_emitted_once:
  assumes "\<forall>l \<in> set (split_nl content). \<not> is_trailer l"
    and "current_block (split_loop init_fstate (split_nl content)) \<noteq> []"
    and "parse_question (current_block (split_loop init_fstate (split_nl content)))
           (question_num (split_loop init_fstate (split_nl content))) = Some q"
  shows "parse_quiz_file content \<noteq> [] \<and> last (parse_quiz_file content) = q \<and>
         count_list (parse_quiz_file content) q = 1"
proof -
  let ?st = "split_loop init_fstate (split_nl content)"
  from assms(2) have "?st \<noteq> init_fstate" by (auto simp: init_fstate_def)
  with split_loop_init_state[OF assms(1)] have o: "open_state ?st" by blast
  have p: "parse_quiz_file content = questions ?st @ [q]"
    using last_block_open[OF o] assms(3)
    by (simp add: parse_quiz_file_def parse_quiz_lines_def emitted_def)
  have "q_num q = question_num ?st" using assms(3) by (rule parse_question_num)
  with o have "q \<notin> set (questions ?st)" by (auto simp: open_state_def)
  then have "count_list (questions ?st) q = 0" by (simp add: count_list_0_iff)
  with p show ?thesis by simp
qed

text \<open>A document of two questions without a trailer header.\<close>

theorem final_block_emitted_once_witness:
  "list_all (\<lambda>l. \<not> is_trailer l)
     (split_nl ''# Quiz\<newline>## T1\<newline>Q1?\<newline>## T2\<newline>Q2?'') \<and>
   current_block (split_loop init_fstate
     (split_nl ''# Quiz\<newline>## T1\<newline>Q1?\<newline>## T2\<newline>Q2?'')) = [''## T2'', ''Q2?''] \<and>
   question_num (split_loop init_fstate
     (split_nl ''# Quiz\<newline>## T1\<newline>Q1?\<newline>## T2\<newline>Q2?'')) = 2 \<and>
   parse_question [''## T2'', ''Q2?''] 2 =
     Some \<lparr>q_num = 2, q_type = ''SA'', q_title = ''T2'', q_text = ''Q2?'', q_options = [],
            q_correct_explanation = [], q_short_answer = []\<rparr> \<and>
   last (parse_quiz_file ''# Quiz\<newline>## T1\<newline>Q1?\<newline>## T2\<newline>Q2?'') =
     \<lparr>q_num = 2, q_type = ''SA'', q_title = ''T2'', q_text = ''Q2?'', q_options = [],
            q_correct_explanation = [], q_short_answer = []\<rparr> \<and>
   count_list (parse_quiz_file ''# Quiz\<newline>## T1\<newline>Q1?\<newline>## T2\<newline>Q2?'')
     \<lparr>q_num = 2, q_type = ''SA'', q_title = ''T2'', q_text = ''Q2?'', q_options = [],
            q_correct_explanation = [], q_short_answer = []\<rparr> = 1"
proof -
  let ?content = "''# Quiz\<newline>## T1\<newline>Q1?\<newline>## T2\<newline>Q2?''"
  let ?q = "\<lparr>q_num = 2, q_type = ''SA'', q_title = ''T2'', q_text = ''Q2?'', q_options = [],
            q_correct_explanation = [], q_short_answer = []\<rparr>"
  have p: "list_all (\<lambda>l. \<not> is_trailer l) (split_nl ?content)" by code_simp
  then have p': "\<forall>l \<in> set (split_nl ?content). \<not> is_trailer l" unfolding list_all_iff .
  have c: "current_block (split_loop init_fstate (split_nl ?content)) = [''## T2'', ''Q2?'']"
    by code_simp
  have n: "question_num (split_loop init_fstate (split_nl ?content)) = 2" by code_simp
  have q: "parse_question [''## T2'', ''Q2?''] 2 = Some ?q" by code_simp
  have c': "current_block (split_loop init_fstate (split_nl ?content)) \<noteq> []"
    unfolding c by simp
  have q': "parse_question (current_block (split_loop init_fstate (split_nl ?content)))
           (question_num (split_loop init_fstate (split_nl ?content))) = Some ?q"
    unfolding c n by (rule q)
  from final_block_emitted_once[OF p' c' q'] p c n q show ?thesis by blast
qed

subsection \<open>Claim C8\<close>




subsection \<open>Claim C9\<close>

text \<open>
  C9. When a fence line opens a code block and no later line of the block is a fence
  line, the body lines are those collected before the opening line, and the result of
  \<open>parse_question\<close> is the result for the lines before the opening line; it is \<open>None\<close>
  when the body collected before is empty once stripped.
\<close>

theorem unterminated_fence_discarded:
  assumes "\<not> in_code_block (scan_lines pre)" and "startswith (strip opn) ''```''"
    and "\<forall>l \<in> set rest. \<not> startswith (strip l) ''```''"
  shows "question_text_lines (scan_lines (pre @ opn # rest)) = question_text_lines (scan_lines pre) \<and>
         parse_question (pre @ opn # rest) n = parse_question pre n \<and>
         (strip (join [NL] (question_text_lines (scan_lines pre))) = [] \<longrightarrow>
            parse_question (pre @ opn # rest) n = None)"
proof -
  note s = scan_lines_unterminated[OF assms]
  have a: "question_text_lines (scan_lines (pre @ opn # rest)) = question_text_lines (scan_lines pre)"
    by (simp add: s)
  have b: "parse_question (pre @ opn # rest) n = parse_question pre n"
    by (simp only: parse_question_build s build_question_code_fields)
  have c: "strip (join [NL] (question_text_lines (scan_lines pre))) = [] \<longrightarrow>
            parse_question (pre @ opn # rest) n = None"
    unfolding b by (simp add: parse_question_build build_question_empty_body)
  from a b c show ?thesis by blast
qed

text \<open>An unterminated fence after a body line, and one with no body line before it.\<close>

theorem unterminated_fence_discarded_witness:
  "\<not> in_code_block (scan_lines [''## T'', ''Q?'']) \<and>
   startswith (strip ''```python'') ''```'' \<and>
   list_all (\<lambda>l. \<not> startswith (strip l) ''```'') [''x = 1'', ''A. b''] \<and>
   question_text_lines (scan_lines ([''## T'', ''Q?''] @ ''```python'' # [''x = 1'', ''A. b''])) = [''Q?''] \<and>
   parse_question ([''## T'', ''Q?''] @ ''```python'' # [''x = 1'', ''A. b'']) 1 =
     Some \<lparr>q_num = 1, q_type = ''SA'', q_title = ''T'', q_text = ''Q?'', q_options = [],
            q_correct_explanation = [], q_short_answer = []\<rparr> \<and>
   \<not> in_code_block (scan_lines [''## T'']) \<and>
   strip (join [NL] (question_text_lines (scan_lines [''## T'']))) = [] \<and>
   parse_question ([''## T''] @ ''```python'' # [''x = 1'', ''A. b'']) 1 = None"
proof -
  have a: "\<not> in_code_block (scan_lines [''## T'', ''Q?''])" by code_simp
  have b: "startswith (strip ''```python'') ''```''" by code_simp
  have c: "list_all (\<lambda>l. \<not> startswith (strip l) ''```'') [''x = 1'', ''A. b'']" by code_simp
  then have c': "\<forall>l \<in> set [''x = 1'', ''A. b'']. \<not> startswith (strip l) ''```''"
    unfolding list_all_iff .
  have d: "question_text_lines (scan_lines [''## T'', ''Q?'']) = [''Q?'']" by code_simp
  have e: "parse_question [''## T'', ''Q?''] 1 =
     Some \<lparr>q_num = 1, q_type = ''SA'', q_title = ''T'', q_text = ''Q?'', q_options = [],
            q_correct_explanation = [], q_short_answer = []\<rparr>" by code_simp
  have a2: "\<not> in_code_block (scan_lines [''## T''])" by code_simp
  have f: "strip (join [NL] (question_text_lines (scan_lines [''## T'']))) = []" by code_simp
  have g: "parse_question [''## T''] 1 = None" by code_simp
  from unterminated_fence_discarded[OF a b c', of 1] unterminated_fence_discarded[OF a2 b c', of 1] a b c d e a2 f g show ?thesis by simp
qed

subsection \<open>Claim C10\<close>

text \<open>
  C10. The numbers of the questions of the output increase strictly along the list, so
  they are pairwise distinct, and no number occurs for more than one question: a block
  adds at most one question, also when the loop is left at the trailer header and the
  last block is parsed a second time.
\<close>

theorem sequence_numbers_increasing:
  "sorted_wrt (<) (map q_num (parse_quiz_file content)) \<and>
   distinct (map q_num (parse_quiz_file content)) \<and>
   (\<forall>k. length (filter (\<lambda>q. q_num q = k) (parse_quiz_file content)) \<le> 1)"
proof -
  have s: "sorted_wrt (<) (map q_num (parse_quiz_file content))"
    using spec_questions_nums[of 1 "spec_blocks (split_nl content)"]
    by (simp add: parse_quiz_file_def parse_quiz_lines_spec)
  then have d: "distinct (map q_num (parse_quiz_file content))"
    using strict_sorted_iff by blast
  from s d distinct_count[OF d] show ?thesis by blast
qed

text \<open>
  A document whose second group is empty and whose third group is closed by the trailer
  header: the numbers are 1 and 3.
\<close>

theorem sequence_numbers_increasing_witness:
  "map q_num (parse_quiz_file
     ''## T1\<newline>Q1?\<newline>## T2\<newline>## T3\<newline>Q3?\<newline>## Learning Objectives\<newline>## T4\<newline>Q4?'')
     = [1, 3] \<and>
   sorted_wrt (<) (map q_num (parse_quiz_file
     ''## T1\<newline>Q1?\<newline>## T2\<newline>## T3\<newline>Q3?\<newline>## Learning Objectives\<newline>## T4\<newline>Q4?''))"
proof -
  let ?content = "''## T1\<newline>Q1?\<newline>## T2\<newline>## T3\<newline>Q3?\<newline>## Learning Objectives\<newline>## T4\<newline>Q4?''"
  have a: "map q_num (parse_quiz_file ?content) = [1, 3]" by code_simp
  from sequence_numbers_increasing[of ?content] a show ?thesis by simp
qed

end
